theory Spec2Isabelle
  imports Complex_Main "HOL-Library.Product_Lexorder"
begin

section \<open>Strings and numbers as Python has them\<close>

text \<open>
  A Python \<open>str\<close> is modelled as a \<open>string\<close> whose characters are code points below 256.
  \<open>str.strip()\<close> removes the characters for which \<open>str.isspace\<close> holds from both ends; below
  256 these are the code points 9 to 13, 28 to 32, 133 and 160.
\<close>

definition is_space :: "char \<Rightarrow> bool" where
  "is_space c = ((of_char c :: nat) \<in> set [9, 10, 11, 12, 13, 28, 29, 30, 31, 32, 133, 160])"

definition strip :: "string \<Rightarrow> string" where
  "strip s = rev (dropWhile is_space (rev (dropWhile is_space s)))"

text \<open>\<open>sep.join(words)\<close>.\<close>

fun join :: "string \<Rightarrow> string list \<Rightarrow> string" where
  "join sep [] = []"
| "join sep [w] = w"
| "join sep (w # v # ws) = w @ sep @ join sep (v # ws)"

text \<open>Decimal rendering of a non-negative integer, as \<open>str(n)\<close> and the format code \<open>d\<close> do.\<close>

definition digit_char :: "nat \<Rightarrow> char" where
  "digit_char d = char_of (48 + d)"

fun show_nat :: "nat \<Rightarrow> string" where
  "show_nat n = (if n < 10 then [digit_char n] else show_nat (n div 10) @ [digit_char (n mod 10)])"

declare show_nat.simps [simp del]

text \<open>The format \<open>{n:04d}\<close>: at least four characters, padded with zeros on the left.\<close>

definition fmt_04d :: "nat \<Rightarrow> string" where
  "fmt_04d n = replicate (4 - length (show_nat n)) (CHR ''0'') @ show_nat n"

text \<open>\<open>f"IMAGE_{image_counter:04d}.png"\<close>.\<close>

definition image_name :: "nat \<Rightarrow> string" where
  "image_name n = ''IMAGE_'' @ fmt_04d n @ ''.png''"

section \<open>OCR line reconstruction: \<open>ocr_extract_lines_with_positions\<close>\<close>

text \<open>
  \<open>pytesseract.image_to_data\<close> returns parallel lists; row \<open>i\<close> of them is one token.
  \<open>tok_text\<close> is \<open>data["text"][i]\<close> (\<open>None\<close> for a falsy value that is not a string),
  \<open>tok_conf\<close> is the value of \<open>float(data["conf"][i])\<close>, \<open>None\<close> when that call raises.
  Python numbers (the integers of the OCR engine, the finite floats of the page decoder)
  are compared by value and are embedded in \<open>rat\<close>.
\<close>

record token =
  tok_text :: "string option"
  tok_conf :: "rat option"
  block_num :: int
  par_num :: int
  line_num :: int
  tok_top :: rat
  tok_left :: rat

type_synonym line_key = "int \<times> int \<times> int"
type_synonym ocr_line = "rat \<times> rat \<times> string"

text \<open>
  The loop variables. \<open>current_key\<close>, \<open>current_words\<close>, \<open>current_top\<close> and \<open>current_left\<close>
  are \<open>None\<close>, \<open>[]\<close>, \<open>None\<close>, \<open>None\<close> before the first surviving token and are all set
  by it, so they are kept as one optional tuple \<open>current\<close>.
\<close>

record ocr_state =
  items :: "ocr_line list"
  current :: "(line_key \<times> string list \<times> rat \<times> rat) option"

text \<open>The \<open>try: conf = float(conf_str) except Exception: conf = -1.0\<close> of the loop body.\<close>

definition conf_of :: "token \<Rightarrow> rat" where
  "conf_of tk = (case tok_conf tk of Some c \<Rightarrow> c | None \<Rightarrow> - 1)"

text \<open>\<open>(data["text"][i] or "").strip()\<close>.\<close>

definition text_of :: "token \<Rightarrow> string" where
  "text_of tk = strip (case tok_text tk of Some t \<Rightarrow> t | None \<Rightarrow> [])"

definition key_of :: "token \<Rightarrow> line_key" where
  "key_of tk = (block_num tk, par_num tk, line_num tk)"

text \<open>
  The flush of the line being built (written twice in the source, inside the loop and
  after it): the list \<open>items\<close> after it.
\<close>

definition flush :: "ocr_state \<Rightarrow> ocr_line list" where
  "flush st =
     (case current st of
        None \<Rightarrow> items st
      | Some (k, ws, t, l) \<Rightarrow>
          if ws \<noteq> [] then
            (let line_text = strip (join '' '' ws)
             in if line_text \<noteq> [] then items st @ [(t, l, line_text)] else items st)
          else items st)"

definition ocr_step :: "rat \<Rightarrow> ocr_state \<Rightarrow> token \<Rightarrow> ocr_state" where
  "ocr_step min_conf st tk =
     (let text = text_of tk; conf = conf_of tk
      in if text = [] \<or> conf < min_conf then st
         else
           (let key = key_of tk;
                fresh = \<lparr>items = flush st, current = Some (key, [text], tok_top tk, tok_left tk)\<rparr>
            in case current st of
                 None \<Rightarrow> fresh
               | Some (k, ws, t, l) \<Rightarrow>
                   if key \<noteq> k then fresh
                   else st\<lparr>current := Some (k, ws @ [text], min t (tok_top tk), min l (tok_left tk))\<rparr>))"

definition ocr_loop :: "rat \<Rightarrow> token list \<Rightarrow> ocr_state" where
  "ocr_loop min_conf data = foldl (ocr_step min_conf) \<lparr>items = [], current = None\<rparr> data"

text \<open>The pure part of the function: the loop, the last flush and the final sort.\<close>

definition ocr_lines :: "rat \<Rightarrow> token list \<Rightarrow> ocr_line list" where
  "ocr_lines min_conf data = sort_key (\<lambda>(t, l, s). (t, l)) (flush (ocr_loop min_conf data))"

text \<open>
  The OCR engine is not part of the repository. A rendered page image is identified with
  the engine's answers on it: \<open>img config\<close> is what \<open>pytesseract.image_to_data\<close> returns for
  the configuration string, \<open>None\<close> when the call raises.
\<close>

datatype error = FileNotFoundError | OSError | RasterizeError | OCRError

type_synonym pil_img = "string \<Rightarrow> token list option"

definition ocr_extract_lines_with_positions ::
  "pil_img \<Rightarrow> string \<Rightarrow> rat \<Rightarrow> error + ocr_line list" where
  "ocr_extract_lines_with_positions img psm min_conf =
     (case img (''--psm '' @ psm) of
        None \<Rightarrow> Inl OCRError
      | Some data \<Rightarrow> Inr (ocr_lines min_conf data))"

section \<open>The decoded document\<close>

text \<open>
  What \<open>page.get_text("rawdict")\<close> gives, read the way the two entry points read it. An
  absent entry whose default is an empty list, an empty string or the bounding box
  \<open>[0, 0, 0, 0]\<close> is stored as that default; \<open>line_bbox\<close> is \<open>None\<close> for a line without
  \<open>"bbox"\<close> (the block's box is used then); \<open>btype\<close> and \<open>xref\<close> are \<open>None\<close> when absent.
  A bounding box is \<open>(x0, y0, x1, y1)\<close>.
\<close>

type_synonym rect = "rat \<times> rat \<times> rat \<times> rat"

record line =
  spans :: "string list"
  line_bbox :: "rect option"

record block =
  btype :: "int option"
  bbox :: rect
  lines :: "line list"
  xref :: "int option"

type_synonym path = "string list"

text \<open>
  The rasterizers are external: \<open>clip_ok page bbox out_path\<close> says that
  \<open>save_clip_as_png(page, bbox, out_path)\<close> returns, \<open>pixmap_ok doc xref out_path\<close> that
  \<open>ensure_rgb_pixmap(doc, xref)\<close> and \<open>pix.save(out_path)\<close> return; they raise otherwise
  (the region or the image cannot be rendered, or the file cannot be written at that
  path). \<open>page_image_for_ocr page\<close> is the rendered page (an OCR call on it raises when the
  page could not be rendered).
\<close>

record page =
  blocks :: "block list"
  clip_ok :: "rect \<Rightarrow> path \<Rightarrow> bool"
  page_image_for_ocr :: pil_img

record document =
  pages :: "page list"
  pixmap_ok :: "int \<Rightarrow> path \<Rightarrow> bool"

text \<open>
  The file system the run finds: \<open>path_exists p\<close> is \<open>p.exists()\<close>; \<open>mkdir_ok p\<close> says
  that \<open>p.mkdir(parents=True, exist_ok=True)\<close> returns, \<open>open_ok p\<close> that
  \<open>p.open("w", encoding="utf-8")\<close> does, and \<open>write_ok p written text\<close> that
  \<open>txt.write(text)\<close> does on the file opened at \<open>p\<close> to which \<open>written\<close> has been written
  so far; they raise otherwise.
\<close>

record filesystem =
  path_exists :: "path \<Rightarrow> bool"
  mkdir_ok :: "path \<Rightarrow> bool"
  open_ok :: "path \<Rightarrow> bool"
  write_ok :: "path \<Rightarrow> string \<Rightarrow> string \<Rightarrow> bool"

section \<open>The extraction state\<close>

datatype kind = KText | KImage

type_synonym content_item = "rat \<times> rat \<times> kind \<times> string"

text \<open>
  A file written to the images directory: its path and what was rasterized into it, an
  embedded image (by xref) or the clip of a page (page index and box).
\<close>

datatype source = Embedded int | Clipped nat rect

text \<open>
  The variables both entry points keep for one document, with the two effects of the run:
  \<open>saved\<close> lists the PNG files written, in order, and \<open>ocr_calls\<close> the calls of
  \<open>ocr_extract_lines_with_positions\<close> (page index, \<open>psm\<close>, \<open>min_conf\<close>), in order.
\<close>

record extractor =
  image_counter :: nat
  xref_to_filename :: "int \<rightharpoonup> string"
  saved :: "(path \<times> source) list"
  ocr_calls :: "(nat \<times> string \<times> rat) list"

record server_state = extractor +
  image_list :: "string list"
  txt_lines :: "string list"

record mineru_state = extractor +
  txt_file :: string

definition nl :: string where
  "nl = [CHR 0x0A]"

text \<open>
  One line of a text block: the span texts concatenated and stripped, placed at the
  line's box; nothing when the text is empty.
\<close>

definition line_item :: "rect \<Rightarrow> line \<Rightarrow> content_item list" where
  "line_item box a_line =
     (let line_text = strip (concat (spans a_line));
          lbbox = (case line_bbox a_line of Some b \<Rightarrow> b | None \<Rightarrow> box);
          (lx, ly, lx1, ly1) = lbbox
      in if line_text \<noteq> [] then [(ly, lx, KText, line_text)] else [])"

definition is_text :: "content_item \<Rightarrow> bool" where
  "is_text it = (case it of (y, x, k, payload) \<Rightarrow> k = KText)"

text \<open>\<open>content_items.sort(key=lambda t: (t[0], t[1], 0 if t[2] == "text" else 1))\<close>;
  Python's sort is stable, as \<open>sort_key\<close> is.\<close>

definition item_key :: "content_item \<Rightarrow> rat \<times> rat \<times> nat" where
  "item_key it = (case it of (y, x, k, payload) \<Rightarrow> (y, x, if k = KText then 0 else 1))"

definition sort_items :: "content_item list \<Rightarrow> content_item list" where
  "sort_items content_items = sort_key item_key content_items"

definition render :: "content_item \<Rightarrow> string" where
  "render it = (case it of (y, x, k, payload) \<Rightarrow>
     (case k of KText \<Rightarrow> payload | KImage \<Rightarrow> ''['' @ payload @ '']''))"

definition header :: "nat \<Rightarrow> string" where
  "header page_index = ''=== Slide '' @ show_nat (page_index + 1) @ '' ===''"

definition ocr_item :: "ocr_line \<Rightarrow> content_item" where
  "ocr_item ol = (case ol of (ly, lx, line_text) \<Rightarrow> (ly, lx, KText, line_text))"

section \<open>\<open>extract_pdf_images_and_text\<close> of server.py\<close>

text \<open>
  The crop of a block without a usable xref, written twice in the source (an image block
  whose xref is absent or zero, and a block of any other type): the next number is taken,
  the clip is saved, the name is appended to \<open>image_list\<close>.
\<close>

definition server_crop ::
  "path \<Rightarrow> nat \<Rightarrow> page \<Rightarrow> rect \<Rightarrow> server_state \<Rightarrow> error + server_state \<times> string" where
  "server_crop images_dir page_index page box s =
     (let counter = image_counter s + 1;
          img_name = image_name counter;
          out_path = images_dir @ [img_name]
      in if clip_ok page box out_path then
           Inr (s\<lparr>image_counter := counter,
                  saved := saved s @ [(out_path, Clipped page_index box)],
                  image_list := image_list s @ [img_name]\<rparr>, img_name)
         else Inl RasterizeError)"

text \<open>An image block with a truthy xref: the name on record, or a new file.\<close>

definition server_embedded ::
  "path \<Rightarrow> document \<Rightarrow> int \<Rightarrow> server_state \<Rightarrow> error + server_state \<times> string" where
  "server_embedded images_dir doc x s =
     (case xref_to_filename s x of
        Some img_name \<Rightarrow> Inr (s, img_name)
      | None \<Rightarrow>
          (let counter = image_counter s + 1;
               img_name = image_name counter;
               out_path = images_dir @ [img_name]
           in if pixmap_ok doc x out_path then
                Inr (s\<lparr>image_counter := counter,
                       xref_to_filename := (xref_to_filename s)(x \<mapsto> img_name),
                       saved := saved s @ [(out_path, Embedded x)],
                       image_list := image_list s @ [img_name]\<rparr>, img_name)
              else Inl RasterizeError))"

text \<open>
  The body of the loop over the blocks of a page. \<open>if xref:\<close> is false for \<open>None\<close> and for 0.
  \<open>if bbox:\<close> in the last branch is true: the box has four entries.
\<close>

definition server_block ::
  "path \<Rightarrow> document \<Rightarrow> nat \<Rightarrow> page \<Rightarrow> server_state \<times> content_item list \<Rightarrow> block \<Rightarrow>
   error + server_state \<times> content_item list" where
  "server_block images_dir doc page_index page st b =
     (case st of (s, content_items) \<Rightarrow>
      (case bbox b of (x0, y0, x1, y1) \<Rightarrow>
        if btype b = Some 0 then
          Inr (s, content_items @ concat (map (line_item (bbox b)) (lines b)))
        else if btype b = Some 1 then
          (case (case xref b of
                   Some x \<Rightarrow> if x \<noteq> 0 then server_embedded images_dir doc x s
                             else server_crop images_dir page_index page (bbox b) s
                 | None \<Rightarrow> server_crop images_dir page_index page (bbox b) s) of
             Inl e \<Rightarrow> Inl e
           | Inr (s', img_name) \<Rightarrow> Inr (s', content_items @ [(y0, x0, KImage, img_name)]))
        else
          (case server_crop images_dir page_index page (bbox b) s of
             Inl e \<Rightarrow> Inl e
           | Inr (s', img_name) \<Rightarrow> Inr (s', content_items @ [(y0, x0, KImage, img_name)]))))"

fun server_blocks ::
  "path \<Rightarrow> document \<Rightarrow> nat \<Rightarrow> page \<Rightarrow> server_state \<times> content_item list \<Rightarrow> block list \<Rightarrow>
   error + server_state \<times> content_item list" where
  "server_blocks images_dir doc page_index page st [] = Inr st"
| "server_blocks images_dir doc page_index page st (b # bs) =
     (case server_block images_dir doc page_index page st b of
        Inl e \<Rightarrow> Inl e
      | Inr st' \<Rightarrow> server_blocks images_dir doc page_index page st' bs)"

text \<open>The body of \<open>if not native_text_found:\<close> up to the lines it obtains.\<close>

definition server_ocr ::
  "nat \<Rightarrow> page \<Rightarrow> server_state \<Rightarrow> error + server_state \<times> ocr_line list" where
  "server_ocr page_index page s =
     (let pil_img = page_image_for_ocr page;
          s1 = s\<lparr>ocr_calls := ocr_calls s @ [(page_index, ''6'', 60)]\<rparr>
      in case ocr_extract_lines_with_positions pil_img ''6'' 60 of
           Inl e \<Rightarrow> Inl e
         | Inr ocr_lines1 \<Rightarrow>
             if ocr_lines1 = [] then
               (let s2 = s1\<lparr>ocr_calls := ocr_calls s1 @ [(page_index, ''11'', 55)]\<rparr>
                in case ocr_extract_lines_with_positions pil_img ''11'' 55 of
                     Inl e \<Rightarrow> Inl e
                   | Inr ocr_lines2 \<Rightarrow> Inr (s2, ocr_lines2))
             else Inr (s1, ocr_lines1))"

text \<open>One page up to the sorted \<open>content_items\<close>.\<close>

definition server_content_items ::
  "path \<Rightarrow> document \<Rightarrow> nat \<Rightarrow> page \<Rightarrow> server_state \<Rightarrow>
   error + server_state \<times> content_item list" where
  "server_content_items images_dir doc page_index page s =
     (case server_blocks images_dir doc page_index page (s, []) (blocks page) of
        Inl e \<Rightarrow> Inl e
      | Inr (s1, content_items) \<Rightarrow>
          (let native_text_found = list_ex is_text content_items
           in if \<not> native_text_found then
                (case server_ocr page_index page s1 of
                   Inl e \<Rightarrow> Inl e
                 | Inr (s2, found) \<Rightarrow>
                     Inr (s2, sort_items (content_items @ map ocr_item found)))
              else Inr (s1, sort_items content_items)))"

definition server_page ::
  "path \<Rightarrow> document \<Rightarrow> nat \<Rightarrow> page \<Rightarrow> server_state \<Rightarrow> error + server_state" where
  "server_page images_dir doc page_index page s =
     (case server_content_items images_dir doc page_index page s of
        Inl e \<Rightarrow> Inl e
      | Inr (s', content_items) \<Rightarrow>
          Inr (s'\<lparr>txt_lines :=
                 txt_lines s' @ [header page_index] @ map render content_items @ [[]]\<rparr>))"

fun server_pages ::
  "path \<Rightarrow> document \<Rightarrow> nat \<Rightarrow> page list \<Rightarrow> server_state \<Rightarrow> error + server_state" where
  "server_pages images_dir doc page_index [] s = Inr s"
| "server_pages images_dir doc page_index (page # rest) s =
     (case server_page images_dir doc page_index page s of
        Inl e \<Rightarrow> Inl e
      | Inr s' \<Rightarrow> server_pages images_dir doc (page_index + 1) rest s')"

definition server_init :: server_state where
  "server_init = \<lparr>image_counter = 0, xref_to_filename = Map.empty, saved = [], ocr_calls = [],
                  image_list = [], txt_lines = []\<rparr>"

text \<open>
  The function: \<open>fs\<close> is the file system it runs on, \<open>pdf_path\<close> the path it is given,
  \<open>doc\<close> what \<open>fitz.open(pdf_path)\<close> holds. The result is the returned triple
  \<open>(txt_content, images_dir, image_list)\<close> and the final state, which carries the files
  written and the OCR calls made.
\<close>

definition extract_pdf_images_and_text ::
  "filesystem \<Rightarrow> path \<Rightarrow> document \<Rightarrow>
   error + (string \<times> path \<times> string list) \<times> server_state" where
  "extract_pdf_images_and_text fs pdf_path doc =
     (let out_dir = butlast pdf_path;
          images_dir = out_dir @ [''images'']
      in if \<not> mkdir_ok fs images_dir then Inl OSError
         else
           (case server_pages images_dir doc 0 (pages doc) server_init of
              Inl e \<Rightarrow> Inl e
            | Inr s \<Rightarrow> Inr ((join nl (txt_lines s), images_dir, image_list s), s)))"

section \<open>\<open>main\<close> of mineru_alternative.py\<close>

text \<open>
  The same loops on the state of this entry point: there is no \<open>image_list\<close>, and the text
  is written to the file \<open>slides_with_placeholders.txt\<close> as it is produced.
\<close>

definition mineru_crop ::
  "path \<Rightarrow> nat \<Rightarrow> page \<Rightarrow> rect \<Rightarrow> mineru_state \<Rightarrow> error + mineru_state \<times> string" where
  "mineru_crop images_dir page_index page box s =
     (let counter = image_counter s + 1;
          img_name = image_name counter;
          out_path = images_dir @ [img_name]
      in if clip_ok page box out_path then
           Inr (s\<lparr>image_counter := counter,
                  saved := saved s @ [(out_path, Clipped page_index box)]\<rparr>, img_name)
         else Inl RasterizeError)"

definition mineru_embedded ::
  "path \<Rightarrow> document \<Rightarrow> int \<Rightarrow> mineru_state \<Rightarrow> error + mineru_state \<times> string" where
  "mineru_embedded images_dir doc x s =
     (case xref_to_filename s x of
        Some img_name \<Rightarrow> Inr (s, img_name)
      | None \<Rightarrow>
          (let counter = image_counter s + 1;
               img_name = image_name counter;
               out_path = images_dir @ [img_name]
           in if pixmap_ok doc x out_path then
                Inr (s\<lparr>image_counter := counter,
                       xref_to_filename := (xref_to_filename s)(x \<mapsto> img_name),
                       saved := saved s @ [(out_path, Embedded x)]\<rparr>, img_name)
              else Inl RasterizeError))"

definition mineru_block ::
  "path \<Rightarrow> document \<Rightarrow> nat \<Rightarrow> page \<Rightarrow> mineru_state \<times> content_item list \<Rightarrow> block \<Rightarrow>
   error + mineru_state \<times> content_item list" where
  "mineru_block images_dir doc page_index page st b =
     (case st of (s, content_items) \<Rightarrow>
      (case bbox b of (x0, y0, x1, y1) \<Rightarrow>
        if btype b = Some 0 then
          Inr (s, content_items @ concat (map (line_item (bbox b)) (lines b)))
        else if btype b = Some 1 then
          (case (case xref b of
                   Some x \<Rightarrow> if x \<noteq> 0 then mineru_embedded images_dir doc x s
                             else mineru_crop images_dir page_index page (bbox b) s
                 | None \<Rightarrow> mineru_crop images_dir page_index page (bbox b) s) of
             Inl e \<Rightarrow> Inl e
           | Inr (s', img_name) \<Rightarrow> Inr (s', content_items @ [(y0, x0, KImage, img_name)]))
        else
          (case mineru_crop images_dir page_index page (bbox b) s of
             Inl e \<Rightarrow> Inl e
           | Inr (s', img_name) \<Rightarrow> Inr (s', content_items @ [(y0, x0, KImage, img_name)]))))"

fun mineru_blocks ::
  "path \<Rightarrow> document \<Rightarrow> nat \<Rightarrow> page \<Rightarrow> mineru_state \<times> content_item list \<Rightarrow> block list \<Rightarrow>
   error + mineru_state \<times> content_item list" where
  "mineru_blocks images_dir doc page_index page st [] = Inr st"
| "mineru_blocks images_dir doc page_index page st (b # bs) =
     (case mineru_block images_dir doc page_index page st b of
        Inl e \<Rightarrow> Inl e
      | Inr st' \<Rightarrow> mineru_blocks images_dir doc page_index page st' bs)"

definition mineru_ocr ::
  "nat \<Rightarrow> page \<Rightarrow> mineru_state \<Rightarrow> error + mineru_state \<times> ocr_line list" where
  "mineru_ocr page_index page s =
     (let pil_img = page_image_for_ocr page;
          s1 = s\<lparr>ocr_calls := ocr_calls s @ [(page_index, ''6'', 60)]\<rparr>
      in case ocr_extract_lines_with_positions pil_img ''6'' 60 of
           Inl e \<Rightarrow> Inl e
         | Inr ocr_lines1 \<Rightarrow>
             if ocr_lines1 = [] then
               (let s2 = s1\<lparr>ocr_calls := ocr_calls s1 @ [(page_index, ''11'', 55)]\<rparr>
                in case ocr_extract_lines_with_positions pil_img ''11'' 55 of
                     Inl e \<Rightarrow> Inl e
                   | Inr ocr_lines2 \<Rightarrow> Inr (s2, ocr_lines2))
             else Inr (s1, ocr_lines1))"

definition mineru_content_items ::
  "path \<Rightarrow> document \<Rightarrow> nat \<Rightarrow> page \<Rightarrow> mineru_state \<Rightarrow>
   error + mineru_state \<times> content_item list" where
  "mineru_content_items images_dir doc page_index page s =
     (case mineru_blocks images_dir doc page_index page (s, []) (blocks page) of
        Inl e \<Rightarrow> Inl e
      | Inr (s1, content_items) \<Rightarrow>
          (let native_text_found = list_ex is_text content_items
           in if \<not> native_text_found then
                (case mineru_ocr page_index page s1 of
                   Inl e \<Rightarrow> Inl e
                 | Inr (s2, found) \<Rightarrow>
                     Inr (s2, sort_items (content_items @ map ocr_item found)))
              else Inr (s1, sort_items content_items)))"

text \<open>\<open>txt.write(text)\<close> on the file opened at \<open>txt_path\<close>.\<close>

definition mineru_write ::
  "filesystem \<Rightarrow> path \<Rightarrow> string \<Rightarrow> mineru_state \<Rightarrow> error + mineru_state" where
  "mineru_write fs txt_path text s =
     (if write_ok fs txt_path (txt_file s) text then Inr (s\<lparr>txt_file := txt_file s @ text\<rparr>)
      else Inl OSError)"

text \<open>The loop that writes one line for each item of the page.\<close>

fun mineru_write_items ::
  "filesystem \<Rightarrow> path \<Rightarrow> content_item list \<Rightarrow> mineru_state \<Rightarrow> error + mineru_state" where
  "mineru_write_items fs txt_path [] s = Inr s"
| "mineru_write_items fs txt_path (it # rest) s =
     (case mineru_write fs txt_path (render it @ nl) s of
        Inl e \<Rightarrow> Inl e
      | Inr s' \<Rightarrow> mineru_write_items fs txt_path rest s')"

text \<open>One page: its items, then the header, one line for each item, the blank line.\<close>

definition mineru_page ::
  "filesystem \<Rightarrow> path \<Rightarrow> path \<Rightarrow> document \<Rightarrow> nat \<Rightarrow> page \<Rightarrow> mineru_state \<Rightarrow>
   error + mineru_state" where
  "mineru_page fs txt_path images_dir doc page_index page s =
     (case mineru_content_items images_dir doc page_index page s of
        Inl e \<Rightarrow> Inl e
      | Inr (s', content_items) \<Rightarrow>
          (case mineru_write fs txt_path (header page_index @ nl) s' of
             Inl e \<Rightarrow> Inl e
           | Inr s1 \<Rightarrow>
               (case mineru_write_items fs txt_path content_items s1 of
                  Inl e \<Rightarrow> Inl e
                | Inr s2 \<Rightarrow> mineru_write fs txt_path nl s2)))"

fun mineru_pages ::
  "filesystem \<Rightarrow> path \<Rightarrow> path \<Rightarrow> document \<Rightarrow> nat \<Rightarrow> page list \<Rightarrow> mineru_state \<Rightarrow>
   error + mineru_state" where
  "mineru_pages fs txt_path images_dir doc page_index [] s = Inr s"
| "mineru_pages fs txt_path images_dir doc page_index (page # rest) s =
     (case mineru_page fs txt_path images_dir doc page_index page s of
        Inl e \<Rightarrow> Inl e
      | Inr s' \<Rightarrow> mineru_pages fs txt_path images_dir doc (page_index + 1) rest s')"

definition mineru_init :: mineru_state where
  "mineru_init = \<lparr>image_counter = 0, xref_to_filename = Map.empty, saved = [], ocr_calls = [],
                  txt_file = []\<rparr>"

definition PDF_PATH :: path where
  "PDF_PATH = [''/'', ''Users'', ''ace'', ''Downloads'', ''compressed(2).pdf'']"

text \<open>
  \<open>main\<close> reads its surroundings: \<open>fs\<close> is the file system it runs on, \<open>timestamp\<close> the
  formatted \<open>datetime.now()\<close>, \<open>doc\<close> what \<open>fitz.open(PDF_PATH)\<close> holds. The result is the
  final state; \<open>txt_file\<close> is the text written to \<open>slides_with_placeholders.txt\<close>.
\<close>

definition main :: "filesystem \<Rightarrow> string \<Rightarrow> document \<Rightarrow> error + mineru_state" where
  "main fs timestamp doc =
     (if \<not> path_exists fs PDF_PATH then Inl FileNotFoundError
      else
        (let base_dir = butlast PDF_PATH;
             folder_name = timestamp @ ''_'' @ ''compressed(2)'';
             out_dir = base_dir @ [folder_name];
             images_dir = out_dir @ [''images'']
         in if \<not> mkdir_ok fs out_dir then Inl OSError
            else if \<not> mkdir_ok fs images_dir then Inl OSError
            else
              (let txt_path = out_dir @ [''slides_with_placeholders.txt'']
               in if \<not> open_ok fs txt_path then Inl OSError
                  else mineru_pages fs txt_path images_dir doc 0 (pages doc) mineru_init)))"
section \<open>Example inputs\<close>

text \<open>A file system on which the PDF exists and every operation succeeds.\<close>

definition fs_ok :: filesystem where
  "fs_ok = \<lparr>path_exists = (\<lambda>p. True), mkdir_ok = (\<lambda>p. True), open_ok = (\<lambda>p. True),
            write_ok = (\<lambda>p written text. True)\<rparr>"

definition tok_good :: token where
  "tok_good = \<lparr>tok_text = Some ''ab'', tok_conf = Some 90, block_num = 1, par_num = 1,
                line_num = 1, tok_top = 5, tok_left = 7\<rparr>"

definition tok_noconf :: token where
  "tok_noconf = \<lparr>tok_text = Some ''zz'', tok_conf = None, block_num = 1, par_num = 1,
                  line_num = 1, tok_top = 1, tok_left = 1\<rparr>"


text \<open>
  A page with native text (an empty line among its lines, two lines at the same place),
  the embedded image 7 placed twice, and a vector drawing.
\<close>

definition page_text :: page where
  "page_text =
     \<lparr>blocks =
        [\<lparr>btype = Some 0, bbox = (10, 20, 200, 60),
          lines = [\<lparr>spans = [''Intro''], line_bbox = Some (10, 20, 200, 40)\<rparr>,
                   \<lparr>spans = ['' '', []], line_bbox = Some (10, 40, 200, 50)\<rparr>,
                   \<lparr>spans = [''Over'', ''view ''], line_bbox = Some (10, 20, 200, 40)\<rparr>],
          xref = None\<rparr>,
         \<lparr>btype = Some 1, bbox = (10, 80, 100, 160), lines = [], xref = Some 7\<rparr>,
         \<lparr>btype = Some 1, bbox = (120, 80, 210, 160), lines = [], xref = Some 7\<rparr>,
         \<lparr>btype = Some 3, bbox = (0, 0, 5, 5), lines = [], xref = None\<rparr>],
      clip_ok = (\<lambda>box out_path. True),
      page_image_for_ocr = (\<lambda>config. None)\<rparr>"

text \<open>
  A page without text: the embedded image 7 again and an image block whose xref is 0,
  placed twice. The OCR engine sees two words of one line with confidence 58.
\<close>

definition tok_sum :: token where
  "tok_sum = \<lparr>tok_text = Some ''Sum'', tok_conf = Some 58, block_num = 1, par_num = 1,
               line_num = 1, tok_top = 12, tok_left = 30\<rparr>"

definition tok_mary :: token where
  "tok_mary = \<lparr>tok_text = Some '' mary'', tok_conf = Some 58, block_num = 1, par_num = 1,
                line_num = 1, tok_top = 10, tok_left = 60\<rparr>"

definition page_scan :: page where
  "page_scan =
     \<lparr>blocks =
        [\<lparr>btype = Some 1, bbox = (0, 0, 300, 200), lines = [], xref = Some 7\<rparr>,
         \<lparr>btype = Some 1, bbox = (5, 5, 9, 9), lines = [], xref = Some 0\<rparr>,
         \<lparr>btype = Some 1, bbox = (5, 5, 9, 9), lines = [], xref = Some 0\<rparr>],
      clip_ok = (\<lambda>box out_path. True),
      page_image_for_ocr = (\<lambda>config. Some [tok_sum, tok_mary])\<rparr>"

definition doc_example :: document where
  "doc_example = \<lparr>pages = [page_text, page_scan], pixmap_ok = (\<lambda>x out_path. True)\<rparr>"

text \<open>A document of one empty page on which the OCR engine finds nothing.\<close>

definition page_blank :: page where
  "page_blank = \<lparr>blocks = [], clip_ok = (\<lambda>box out_path. True), page_image_for_ocr = (\<lambda>config. Some [])\<rparr>"

definition doc_blank :: document where
  "doc_blank = \<lparr>pages = [page_blank], pixmap_ok = (\<lambda>x out_path. True)\<rparr>"

text \<open>The state \<open>main\<close> ends in on \<open>doc_example\<close>, started at \<open>20251014-103012\<close>.\<close>

definition mineru_images_dir :: path where
  "mineru_images_dir =
     [''/'', ''Users'', ''ace'', ''Downloads'', ''20251014-103012_compressed(2)'', ''images'']"

definition mineru_final :: mineru_state where
  "mineru_final =
     \<lparr>image_counter = 4,
      xref_to_filename = [7 \<mapsto> ''IMAGE_0001.png''],
      saved = [(mineru_images_dir @ [''IMAGE_0001.png''], Embedded 7),
               (mineru_images_dir @ [''IMAGE_0002.png''], Clipped 0 (0, 0, 5, 5)),
               (mineru_images_dir @ [''IMAGE_0003.png''], Clipped 1 (5, 5, 9, 9)),
               (mineru_images_dir @ [''IMAGE_0004.png''], Clipped 1 (5, 5, 9, 9))],
      ocr_calls = [(1, ''6'', 60), (1, ''11'', 55)],
      txt_file =
        ''=== Slide 1 ==='' @ nl @ ''[IMAGE_0002.png]'' @ nl @ ''Intro'' @ nl @
        ''Overview'' @ nl @ ''[IMAGE_0001.png]'' @ nl @ ''[IMAGE_0001.png]'' @ nl @ nl @
        ''=== Slide 2 ==='' @ nl @ ''[IMAGE_0001.png]'' @ nl @ ''[IMAGE_0003.png]'' @ nl @
        ''[IMAGE_0004.png]'' @ nl @ ''Sum mary'' @ nl @ nl\<rparr>"


text \<open>
  The state \<open>extract_pdf_images_and_text\<close> ends in on \<open>doc_example\<close>, given the path
  \<open>session/input.pdf\<close>.
\<close>

definition server_images_dir :: path where
  "server_images_dir = [''session'', ''images'']"

definition server_final :: server_state where
  "server_final =
     \<lparr>image_counter = 4,
      xref_to_filename = [7 \<mapsto> ''IMAGE_0001.png''],
      saved = [(server_images_dir @ [''IMAGE_0001.png''], Embedded 7),
               (server_images_dir @ [''IMAGE_0002.png''], Clipped 0 (0, 0, 5, 5)),
               (server_images_dir @ [''IMAGE_0003.png''], Clipped 1 (5, 5, 9, 9)),
               (server_images_dir @ [''IMAGE_0004.png''], Clipped 1 (5, 5, 9, 9))],
      ocr_calls = [(1, ''6'', 60), (1, ''11'', 55)],
      image_list = [''IMAGE_0001.png'', ''IMAGE_0002.png'', ''IMAGE_0003.png'',
                    ''IMAGE_0004.png''],
      txt_lines =
        [''=== Slide 1 ==='', ''[IMAGE_0002.png]'', ''Intro'', ''Overview'',
         ''[IMAGE_0001.png]'', ''[IMAGE_0001.png]'', [],
         ''=== Slide 2 ==='', ''[IMAGE_0001.png]'', ''[IMAGE_0003.png]'',
         ''[IMAGE_0004.png]'', ''Sum mary'', []]\<rparr>"

text \<open>The merged items of \<open>page_text\<close> as the first page of a document.\<close>

definition items_text :: "content_item list" where
  "items_text =
     [(0, 0, KImage, ''IMAGE_0002.png''), (20, 10, KText, ''Intro''),
      (20, 10, KText, ''Overview''), (80, 10, KImage, ''IMAGE_0001.png''),
      (80, 120, KImage, ''IMAGE_0001.png'')]"

text \<open>The merged items of \<open>page_scan\<close> as the first page of a document.\<close>

definition items_scan :: "content_item list" where
  "items_scan =
     [(0, 0, KImage, ''IMAGE_0001.png''), (5, 5, KImage, ''IMAGE_0002.png''),
      (5, 5, KImage, ''IMAGE_0003.png''), (10, 30, KText, ''Sum mary'')]"
section \<open>Notions used to state the properties\<close>

definition item_top :: "content_item \<Rightarrow> rat" where
  "item_top it = fst it"

definition item_left :: "content_item \<Rightarrow> rat" where
  "item_left it = fst (snd it)"

definition item_kind :: "content_item \<Rightarrow> kind" where
  "item_kind it = fst (snd (snd it))"

definition item_payload :: "content_item \<Rightarrow> string" where
  "item_payload it = snd (snd (snd it))"

text \<open>The file names written, with what was rasterized into each, in order.\<close>

definition names :: "'a extractor_scheme \<Rightarrow> (string \<times> source) list" where
  "names s = map (\<lambda>(p, src). (last p, src)) (saved s)"

text \<open>
  Two runs (of either entry point) at the same point: the same counter, the same map, the
  same files by name and content, the same OCR calls.
\<close>

definition same_core :: "'a extractor_scheme \<Rightarrow> 'b extractor_scheme \<Rightarrow> bool" where
  "same_core a b =
     (image_counter a = image_counter b \<and> xref_to_filename a = xref_to_filename b \<and>
      names a = names b \<and> ocr_calls a = ocr_calls b)"

text \<open>
  The two entry points in step: at the same point, and the text written by \<open>main\<close> is the
  lines collected by \<open>extract_pdf_images_and_text\<close>, each followed by a newline.
\<close>

definition in_step :: "mineru_state \<Rightarrow> server_state \<Rightarrow> bool" where
  "in_step m s = (same_core m s \<and> txt_file m = concat (map (\<lambda>l. l @ nl) (txt_lines s)))"

text \<open>
  The order the specification claims for the merged items of a page, and the order the
  sort key gives: on equal \<open>top\<close> and \<open>left\<close> an image never precedes a text, and items
  of the same kind may follow each other.
\<close>

definition claimed_order :: "content_item \<Rightarrow> content_item \<Rightarrow> bool" where
  "claimed_order a b =
     (item_top a < item_top b \<or>
      (item_top a = item_top b \<and> item_left a < item_left b) \<or>
      (item_top a = item_top b \<and> item_left a = item_left b \<and>
       item_kind a = KText \<and> item_kind b = KImage))"

definition merge_order :: "content_item \<Rightarrow> content_item \<Rightarrow> bool" where
  "merge_order a b =
     (item_top a < item_top b \<or>
      (item_top a = item_top b \<and> item_left a < item_left b) \<or>
      (item_top a = item_top b \<and> item_left a = item_left b \<and>
       (item_kind a = KText \<or> item_kind b = KImage)))"

text \<open>
  What the block classifier makes of the text blocks of a page: the items of the lines of
  the blocks of type 0, in order (a line whose text strips to nothing gives none).
\<close>

definition block_text :: "block \<Rightarrow> content_item list" where
  "block_text b = (if btype b = Some 0 then concat (map (line_item (bbox b)) (lines b)) else [])"

definition classified_text :: "page \<Rightarrow> content_item list" where
  "classified_text p = concat (map block_text (blocks p))"

section \<open>Properties of the string functions\<close>

lemma strip_Nil [simp]: "strip [] = []"
  by (simp add: strip_def)

section \<open>Evaluating the model on the examples\<close>

lemmas ex_defs = page_text_def page_scan_def doc_example_def tok_sum_def tok_mary_def
  page_blank_def doc_blank_def fs_ok_def
lemmas str_defs = strip_def is_space_def nl_def
lemma image_name_1: "image_name (Suc 0) = ''IMAGE_0001.png''" by code_simp
lemma image_name_2: "image_name (Suc (Suc 0)) = ''IMAGE_0002.png''" by code_simp
lemma image_name_3: "image_name (Suc (Suc (Suc 0))) = ''IMAGE_0003.png''" by code_simp
lemma image_name_4: "image_name (Suc (Suc (Suc (Suc 0)))) = ''IMAGE_0004.png''" by code_simp
lemma header_0: "header 0 = ''=== Slide 1 ===''" by code_simp
lemma header_1: "header (Suc 0) = ''=== Slide 2 ===''" by code_simp
lemmas name_evals = image_name_1 image_name_2 image_name_3 image_name_4 header_0 header_1
lemmas ocr_defs = ocr_extract_lines_with_positions_def ocr_lines_def ocr_loop_def ocr_step_def
  flush_def text_of_def conf_of_def key_of_def
lemmas item_defs = line_item_def is_text_def item_key_def sort_items_def render_def ocr_item_def
lemmas server_defs = server_content_items_def server_block_def server_crop_def server_embedded_def
  server_ocr_def server_page_def server_init_def extract_pdf_images_and_text_def
lemmas mineru_defs = mineru_content_items_def mineru_block_def mineru_crop_def mineru_embedded_def
  mineru_ocr_def mineru_page_def mineru_write_def mineru_init_def main_def PDF_PATH_def
lemmas eval_simps = ex_defs str_defs name_evals ocr_defs item_defs Let_def less_eq_prod_def less_prod_def

lemma main_example: "main fs_ok ''20251014-103012'' doc_example = Inr mineru_final"
  by (simp add: eval_simps mineru_defs mineru_final_def mineru_images_dir_def)

lemma main_blank:
  "map_sum id txt_file (main fs_ok ''20251014-103012'' doc_blank) = Inr (''=== Slide 1 ==='' @ nl @ nl)"
  by (simp add: eval_simps mineru_defs)

lemma extract_blank:
  "map_sum id (\<lambda>(r, s). fst r) (extract_pdf_images_and_text fs_ok [''session'', ''input.pdf''] doc_blank) = Inr (''=== Slide 1 ==='' @ nl)"
  by (simp add: eval_simps server_defs)


lemma extract_example:
  "extract_pdf_images_and_text fs_ok [''session'', ''input.pdf''] doc_example =
     Inr ((join nl (txt_lines server_final), server_images_dir, image_list server_final),
          server_final)"
  by (simp add: eval_simps server_defs server_final_def server_images_dir_def)

lemma server_items_text:
  "\<exists>s'. server_content_items server_images_dir doc_example 0 page_text server_init =
     Inr (s', items_text)"
  by (simp add: eval_simps server_defs items_text_def)

lemma mineru_items_text:
  "\<exists>s'. mineru_content_items mineru_images_dir doc_example 0 page_text mineru_init =
     Inr (s', items_text)"
  by (simp add: eval_simps mineru_defs items_text_def)

lemma server_items_scan:
  "\<exists>s'. server_content_items server_images_dir doc_example 0 page_scan server_init =
     Inr (s', items_scan) \<and> ocr_calls s' = [(0, ''6'', 60), (0, ''11'', 55)]"
  by (simp add: eval_simps server_defs items_scan_def)

section \<open>Runs that return\<close>

subsection \<open>The steps of a run of \<open>extract_pdf_images_and_text\<close> that returns\<close>

lemma server_crop_Inr:
  assumes "server_crop d i p box s = Inr (s', n)"
  shows "n = image_name (image_counter s + 1) \<and> clip_ok p box (d @ [n]) \<and>
         image_counter s' = image_counter s + 1 \<and>
         saved s' = saved s @ [(d @ [n], Clipped i box)] \<and>
         xref_to_filename s' = xref_to_filename s \<and> ocr_calls s' = ocr_calls s"
  using assms by (auto simp: server_crop_def Let_def split: if_splits)

lemma server_embedded_hit:
  assumes "server_embedded d doc x s = Inr (s', n)" and "xref_to_filename s x = Some n0"
  shows "s' = s \<and> n = n0"
  using assms by (auto simp: server_embedded_def Let_def split: if_splits)

lemma server_embedded_miss:
  assumes "server_embedded d doc x s = Inr (s', n)" and "xref_to_filename s x = None"
  shows "n = image_name (image_counter s + 1) \<and> pixmap_ok doc x (d @ [n]) \<and>
         image_counter s' = image_counter s + 1 \<and>
         saved s' = saved s @ [(d @ [n], Embedded x)] \<and>
         xref_to_filename s' = (xref_to_filename s)(x \<mapsto> n) \<and> ocr_calls s' = ocr_calls s"
  using assms by (auto simp: server_embedded_def Let_def split: if_splits)

lemma server_block_Inr:
  assumes "server_block d doc i p (s, ci) b = Inr (s', c)"
  shows "(btype b = Some 0 \<and> s' = s \<and> c = ci @ concat (map (line_item (bbox b)) (lines b))) \<or>
         (\<exists>x n. btype b = Some 1 \<and> xref b = Some x \<and> x \<noteq> 0 \<and>
                server_embedded d doc x s = Inr (s', n) \<and>
                c = ci @ [(fst (snd (bbox b)), fst (bbox b), KImage, n)]) \<or>
         (\<exists>n. btype b \<noteq> Some 0 \<and> (btype b = Some 1 \<longrightarrow> xref b = None \<or> xref b = Some 0) \<and>
              server_crop d i p (bbox b) s = Inr (s', n) \<and>
              c = ci @ [(fst (snd (bbox b)), fst (bbox b), KImage, n)])"
  using assms
  by (cases "bbox b") (auto simp: server_block_def split: if_splits option.splits sum.splits)

lemma server_block_cases [consumes 1, case_names Text Embedded Crop]:
  assumes "server_block d doc i p (s, ci) b = Inr (s', c)"
    and "btype b = Some 0 \<Longrightarrow> s' = s \<Longrightarrow>
         c = ci @ concat (map (line_item (bbox b)) (lines b)) \<Longrightarrow> P"
    and "\<And>x n. btype b = Some 1 \<Longrightarrow> xref b = Some x \<Longrightarrow> x \<noteq> 0 \<Longrightarrow>
           server_embedded d doc x s = Inr (s', n) \<Longrightarrow>
           c = ci @ [(fst (snd (bbox b)), fst (bbox b), KImage, n)] \<Longrightarrow> P"
    and "\<And>n. btype b \<noteq> Some 0 \<Longrightarrow> btype b = Some 1 \<longrightarrow> xref b = None \<or> xref b = Some 0 \<Longrightarrow>
           server_crop d i p (bbox b) s = Inr (s', n) \<Longrightarrow>
           c = ci @ [(fst (snd (bbox b)), fst (bbox b), KImage, n)] \<Longrightarrow> P"
  shows P
  using server_block_Inr [OF assms(1)] assms(2-) by blast

lemma server_blocks_Cons:
  assumes "server_blocks d doc i p st (b # bs) = Inr st'"
  obtains s1 c1 where "server_block d doc i p st b = Inr (s1, c1)"
    and "server_blocks d doc i p (s1, c1) bs = Inr st'"
  using assms by (auto split: sum.splits)

lemma server_blocks_induct [consumes 1, case_names Start Step]:
  assumes "server_blocks d doc i p st bs = Inr st'"
    and "P st"
    and "\<And>s ci b s' ci'. P (s, ci) \<Longrightarrow> b \<in> set bs \<Longrightarrow>
           server_block d doc i p (s, ci) b = Inr (s', ci') \<Longrightarrow> P (s', ci')"
  shows "P st'"
  using assms
proof (induction bs arbitrary: st)
  case Nil
  then show ?case by simp
next
  case (Cons b bs)
  from Cons.prems(1) obtain s1 c1 where 1: "server_block d doc i p st b = Inr (s1, c1)"
    and 2: "server_blocks d doc i p (s1, c1) bs = Inr st'"
    by (rule server_blocks_Cons)
  obtain s ci where st: "st = (s, ci)" by (cases st)
  have "P (s1, c1)"
    using Cons.prems(2) [unfolded st] 1 [unfolded st] Cons.prems(3) [of s ci b s1 c1] by simp
  show ?case
  proof (rule Cons.IH [OF 2 \<open>P (s1, c1)\<close>])
    fix s ci b' s' ci'
    assume "P (s, ci)" "b' \<in> set bs" "server_block d doc i p (s, ci) b' = Inr (s', ci')"
    then show "P (s', ci')" using Cons.prems(3) [of s ci b' s' ci'] by simp
  qed
qed

lemma server_ocr_Inr:
  assumes "server_ocr i p s = Inr (s', found)"
  shows "image_counter s' = image_counter s \<and> saved s' = saved s \<and>
         xref_to_filename s' = xref_to_filename s \<and>
         (\<exists>first. ocr_extract_lines_with_positions (page_image_for_ocr p) ''6'' 60 = Inr first \<and>
            (if first = [] then
               ocr_extract_lines_with_positions (page_image_for_ocr p) ''11'' 55 = Inr found \<and>
               ocr_calls s' = ocr_calls s @ [(i, ''6'', 60), (i, ''11'', 55)]
             else found = first \<and> ocr_calls s' = ocr_calls s @ [(i, ''6'', 60)]))"
proof -
  from assms obtain first
    where f: "ocr_extract_lines_with_positions (page_image_for_ocr p) ''6'' 60 = Inr first"
    by (auto simp: server_ocr_def Let_def split: sum.splits)
  show ?thesis
  proof (cases "first = []")
    case True
    with assms f show ?thesis by (auto simp: server_ocr_def Let_def split: sum.splits)
  next
    case False
    with assms f show ?thesis by (auto simp: server_ocr_def Let_def)
  qed
qed

lemma server_content_items_cases [consumes 1, case_names Native OCR]:
  assumes "server_content_items d doc i p s = Inr (s', its)"
    and "\<And>ci. server_blocks d doc i p (s, []) (blocks p) = Inr (s', ci) \<Longrightarrow>
           list_ex is_text ci \<Longrightarrow> its = sort_items ci \<Longrightarrow> P"
    and "\<And>s1 ci found. server_blocks d doc i p (s, []) (blocks p) = Inr (s1, ci) \<Longrightarrow>
           \<not> list_ex is_text ci \<Longrightarrow> server_ocr i p s1 = Inr (s', found) \<Longrightarrow>
           its = sort_items (ci @ map ocr_item found) \<Longrightarrow> P"
  shows P
proof -
  from assms(1) have
    "(\<exists>ci. server_blocks d doc i p (s, []) (blocks p) = Inr (s', ci) \<and> list_ex is_text ci \<and>
          its = sort_items ci) \<or>
     (\<exists>s1 ci found. server_blocks d doc i p (s, []) (blocks p) = Inr (s1, ci) \<and>
          \<not> list_ex is_text ci \<and> server_ocr i p s1 = Inr (s', found) \<and>
          its = sort_items (ci @ map ocr_item found))"
    by (auto simp: server_content_items_def Let_def split: sum.splits prod.splits if_splits)
  with assms(2-) show P by blast
qed

subsection \<open>The steps of a run of \<open>main\<close> that returns\<close>

lemma mineru_crop_Inr:
  assumes "mineru_crop d i p box s = Inr (s', n)"
  shows "n = image_name (image_counter s + 1) \<and> clip_ok p box (d @ [n]) \<and>
         image_counter s' = image_counter s + 1 \<and>
         saved s' = saved s @ [(d @ [n], Clipped i box)] \<and>
         xref_to_filename s' = xref_to_filename s \<and> ocr_calls s' = ocr_calls s"
  using assms by (auto simp: mineru_crop_def Let_def split: if_splits)

lemma mineru_embedded_hit:
  assumes "mineru_embedded d doc x s = Inr (s', n)" and "xref_to_filename s x = Some n0"
  shows "s' = s \<and> n = n0"
  using assms by (auto simp: mineru_embedded_def Let_def split: if_splits)

lemma mineru_embedded_miss:
  assumes "mineru_embedded d doc x s = Inr (s', n)" and "xref_to_filename s x = None"
  shows "n = image_name (image_counter s + 1) \<and> pixmap_ok doc x (d @ [n]) \<and>
         image_counter s' = image_counter s + 1 \<and>
         saved s' = saved s @ [(d @ [n], Embedded x)] \<and>
         xref_to_filename s' = (xref_to_filename s)(x \<mapsto> n) \<and> ocr_calls s' = ocr_calls s"
  using assms by (auto simp: mineru_embedded_def Let_def split: if_splits)

lemma mineru_block_Inr:
  assumes "mineru_block d doc i p (s, ci) b = Inr (s', c)"
  shows "(btype b = Some 0 \<and> s' = s \<and> c = ci @ concat (map (line_item (bbox b)) (lines b))) \<or>
         (\<exists>x n. btype b = Some 1 \<and> xref b = Some x \<and> x \<noteq> 0 \<and>
                mineru_embedded d doc x s = Inr (s', n) \<and>
                c = ci @ [(fst (snd (bbox b)), fst (bbox b), KImage, n)]) \<or>
         (\<exists>n. btype b \<noteq> Some 0 \<and> (btype b = Some 1 \<longrightarrow> xref b = None \<or> xref b = Some 0) \<and>
              mineru_crop d i p (bbox b) s = Inr (s', n) \<and>
              c = ci @ [(fst (snd (bbox b)), fst (bbox b), KImage, n)])"
  using assms
  by (cases "bbox b") (auto simp: mineru_block_def split: if_splits option.splits sum.splits)

lemma mineru_block_cases [consumes 1, case_names Text Embedded Crop]:
  assumes "mineru_block d doc i p (s, ci) b = Inr (s', c)"
    and "btype b = Some 0 \<Longrightarrow> s' = s \<Longrightarrow>
         c = ci @ concat (map (line_item (bbox b)) (lines b)) \<Longrightarrow> P"
    and "\<And>x n. btype b = Some 1 \<Longrightarrow> xref b = Some x \<Longrightarrow> x \<noteq> 0 \<Longrightarrow>
           mineru_embedded d doc x s = Inr (s', n) \<Longrightarrow>
           c = ci @ [(fst (snd (bbox b)), fst (bbox b), KImage, n)] \<Longrightarrow> P"
    and "\<And>n. btype b \<noteq> Some 0 \<Longrightarrow> btype b = Some 1 \<longrightarrow> xref b = None \<or> xref b = Some 0 \<Longrightarrow>
           mineru_crop d i p (bbox b) s = Inr (s', n) \<Longrightarrow>
           c = ci @ [(fst (snd (bbox b)), fst (bbox b), KImage, n)] \<Longrightarrow> P"
  shows P
  using mineru_block_Inr [OF assms(1)] assms(2-) by blast

lemma mineru_blocks_Cons:
  assumes "mineru_blocks d doc i p st (b # bs) = Inr st'"
  obtains s1 c1 where "mineru_block d doc i p st b = Inr (s1, c1)"
    and "mineru_blocks d doc i p (s1, c1) bs = Inr st'"
  using assms by (auto split: sum.splits)

lemma mineru_blocks_induct [consumes 1, case_names Start Step]:
  assumes "mineru_blocks d doc i p st bs = Inr st'"
    and "P st"
    and "\<And>s ci b s' ci'. P (s, ci) \<Longrightarrow> b \<in> set bs \<Longrightarrow>
           mineru_block d doc i p (s, ci) b = Inr (s', ci') \<Longrightarrow> P (s', ci')"
  shows "P st'"
  using assms
proof (induction bs arbitrary: st)
  case Nil
  then show ?case by simp
next
  case (Cons b bs)
  from Cons.prems(1) obtain s1 c1 where 1: "mineru_block d doc i p st b = Inr (s1, c1)"
    and 2: "mineru_blocks d doc i p (s1, c1) bs = Inr st'"
    by (rule mineru_blocks_Cons)
  obtain s ci where st: "st = (s, ci)" by (cases st)
  have "P (s1, c1)"
    using Cons.prems(2) [unfolded st] 1 [unfolded st] Cons.prems(3) [of s ci b s1 c1] by simp
  show ?case
  proof (rule Cons.IH [OF 2 \<open>P (s1, c1)\<close>])
    fix s ci b' s' ci'
    assume "P (s, ci)" "b' \<in> set bs" "mineru_block d doc i p (s, ci) b' = Inr (s', ci')"
    then show "P (s', ci')" using Cons.prems(3) [of s ci b' s' ci'] by simp
  qed
qed

lemma mineru_ocr_Inr:
  assumes "mineru_ocr i p s = Inr (s', found)"
  shows "image_counter s' = image_counter s \<and> saved s' = saved s \<and>
         xref_to_filename s' = xref_to_filename s \<and>
         (\<exists>first. ocr_extract_lines_with_positions (page_image_for_ocr p) ''6'' 60 = Inr first \<and>
            (if first = [] then
               ocr_extract_lines_with_positions (page_image_for_ocr p) ''11'' 55 = Inr found \<and>
               ocr_calls s' = ocr_calls s @ [(i, ''6'', 60), (i, ''11'', 55)]
             else found = first \<and> ocr_calls s' = ocr_calls s @ [(i, ''6'', 60)]))"
proof -
  from assms obtain first
    where f: "ocr_extract_lines_with_positions (page_image_for_ocr p) ''6'' 60 = Inr first"
    by (auto simp: mineru_ocr_def Let_def split: sum.splits)
  show ?thesis
  proof (cases "first = []")
    case True
    with assms f show ?thesis by (auto simp: mineru_ocr_def Let_def split: sum.splits)
  next
    case False
    with assms f show ?thesis by (auto simp: mineru_ocr_def Let_def)
  qed
qed

lemma mineru_content_items_cases [consumes 1, case_names Native OCR]:
  assumes "mineru_content_items d doc i p s = Inr (s', its)"
    and "\<And>ci. mineru_blocks d doc i p (s, []) (blocks p) = Inr (s', ci) \<Longrightarrow>
           list_ex is_text ci \<Longrightarrow> its = sort_items ci \<Longrightarrow> P"
    and "\<And>s1 ci found. mineru_blocks d doc i p (s, []) (blocks p) = Inr (s1, ci) \<Longrightarrow>
           \<not> list_ex is_text ci \<Longrightarrow> mineru_ocr i p s1 = Inr (s', found) \<Longrightarrow>
           its = sort_items (ci @ map ocr_item found) \<Longrightarrow> P"
  shows P
proof -
  from assms(1) have
    "(\<exists>ci. mineru_blocks d doc i p (s, []) (blocks p) = Inr (s', ci) \<and> list_ex is_text ci \<and>
          its = sort_items ci) \<or>
     (\<exists>s1 ci found. mineru_blocks d doc i p (s, []) (blocks p) = Inr (s1, ci) \<and>
          \<not> list_ex is_text ci \<and> mineru_ocr i p s1 = Inr (s', found) \<and>
          its = sort_items (ci @ map ocr_item found))"
    by (auto simp: mineru_content_items_def Let_def split: sum.splits prod.splits if_splits)
  with assms(2-) show P by blast
qed

subsection \<open>A run of \<open>mineru\<close> and a run of \<open>server\<close> side by side\<close>

lemma mineru_server_crop_core:
  assumes "same_core a b" and "mineru_crop d1 i p box a = Inr (a', n)"
    and "server_crop d2 i p box b = Inr (b', n')"
  shows "same_core a' b' \<and> n = n'"
  using assms(1) mineru_crop_Inr [OF assms(2)] server_crop_Inr [OF assms(3)]
  by (simp add: same_core_def names_def)

lemma mineru_server_embedded_core:
  assumes "same_core a b" and "mineru_embedded d1 doc x a = Inr (a', n)"
    and "server_embedded d2 doc x b = Inr (b', n')"
  shows "same_core a' b' \<and> n = n'"
proof (cases "xref_to_filename a x")
  case None
  with assms(1) have "xref_to_filename b x = None" by (simp add: same_core_def)
  from assms(1) mineru_embedded_miss [OF assms(2) None] server_embedded_miss [OF assms(3) this]
  show ?thesis by (simp add: same_core_def names_def)
next
  case (Some n0)
  with assms(1) have "xref_to_filename b x = Some n0" by (simp add: same_core_def)
  from assms(1) mineru_embedded_hit [OF assms(2) Some] server_embedded_hit [OF assms(3) this]
  show ?thesis by simp
qed

lemma mineru_server_block_core:
  assumes "same_core a b" and "mineru_block d1 doc i p (a, ci) blk = Inr (a', c)"
    and "server_block d2 doc i p (b, ci) blk = Inr (b', c')"
  shows "same_core a' b' \<and> c = c'"
  using assms(2)
proof (cases rule: mineru_block_cases)
  case Text
  from assms(3) show ?thesis
    by (cases rule: server_block_cases) (use Text assms(1) in auto)
next
  case (Embedded x n)
  from assms(3) show ?thesis
  proof (cases rule: server_block_cases)
    case e: (Embedded y m)
    with Embedded have "y = x" by simp
    from mineru_server_embedded_core [OF assms(1) Embedded(4) e(4) [unfolded this]] Embedded(5) e(5)
    show ?thesis by simp
  qed (use Embedded in auto)
next
  case (Crop n)
  from assms(3) show ?thesis
  proof (cases rule: server_block_cases)
    case c: (Crop m)
    from mineru_server_crop_core [OF assms(1) Crop(3) c(3)] Crop(4) c(4) show ?thesis by simp
  qed (use Crop in auto)
qed

lemma mineru_server_blocks_core:
  assumes "same_core a b" and "mineru_blocks d1 doc i p (a, ci) bs = Inr (a', c)"
    and "server_blocks d2 doc i p (b, ci) bs = Inr (b', c')"
  shows "same_core a' b' \<and> c = c'"
  using assms
proof (induction bs arbitrary: a b ci)
  case Nil
  then show ?case by simp
next
  case (Cons blk bs)
  from Cons.prems(2) obtain a1 c1 where x: "mineru_block d1 doc i p (a, ci) blk = Inr (a1, c1)"
    "mineru_blocks d1 doc i p (a1, c1) bs = Inr (a', c)" by (rule mineru_blocks_Cons)
  from Cons.prems(3) obtain b1 c2 where y: "server_block d2 doc i p (b, ci) blk = Inr (b1, c2)"
    "server_blocks d2 doc i p (b1, c2) bs = Inr (b', c')" by (rule server_blocks_Cons)
  from mineru_server_block_core [OF Cons.prems(1) x(1) y(1)] have 1: "same_core a1 b1" "c1 = c2"
    by simp_all
  from Cons.IH [OF 1(1) x(2) y(2) [folded 1(2)]] show ?case .
qed

lemma mineru_server_ocr_core:
  assumes "same_core a b" and "mineru_ocr i p a = Inr (a', found)"
    and "server_ocr i p b = Inr (b', found')"
  shows "same_core a' b' \<and> found = found'"
proof -
  from mineru_ocr_Inr [OF assms(2)] obtain f1 where 1:
    "image_counter a' = image_counter a" "saved a' = saved a"
    "xref_to_filename a' = xref_to_filename a"
    "ocr_extract_lines_with_positions (page_image_for_ocr p) ''6'' 60 = Inr f1"
    "if f1 = [] then
       ocr_extract_lines_with_positions (page_image_for_ocr p) ''11'' 55 = Inr found \<and>
       ocr_calls a' = ocr_calls a @ [(i, ''6'', 60), (i, ''11'', 55)]
     else found = f1 \<and> ocr_calls a' = ocr_calls a @ [(i, ''6'', 60)]"
    by blast
  from server_ocr_Inr [OF assms(3)] obtain f2 where 2:
    "image_counter b' = image_counter b" "saved b' = saved b"
    "xref_to_filename b' = xref_to_filename b"
    "ocr_extract_lines_with_positions (page_image_for_ocr p) ''6'' 60 = Inr f2"
    "if f2 = [] then
       ocr_extract_lines_with_positions (page_image_for_ocr p) ''11'' 55 = Inr found' \<and>
       ocr_calls b' = ocr_calls b @ [(i, ''6'', 60), (i, ''11'', 55)]
     else found' = f2 \<and> ocr_calls b' = ocr_calls b @ [(i, ''6'', 60)]"
    by blast
  from 1(4) 2(4) have f: "f2 = f1" by simp
  show ?thesis
  proof (cases "f1 = []")
    case True
    with 1 2 f assms(1) show ?thesis by (simp add: same_core_def names_def)
  next
    case False
    with 1 2 f assms(1) show ?thesis by (simp add: same_core_def names_def)
  qed
qed

lemma mineru_server_content_items_core:
  assumes "same_core a b" and "mineru_content_items d1 doc i p a = Inr (a', its)"
    and "server_content_items d2 doc i p b = Inr (b', its')"
  shows "same_core a' b' \<and> its = its'"
  using assms(2)
proof (cases rule: mineru_content_items_cases)
  case (Native ci)
  from assms(3) show ?thesis
  proof (cases rule: server_content_items_cases)
    case n: (Native ci')
    from mineru_server_blocks_core [OF assms(1) Native(1) n(1)] Native(3) n(3) show ?thesis by simp
  next
    case o: (OCR b1 ci' found)
    from mineru_server_blocks_core [OF assms(1) Native(1) o(1)] Native(2) o(2) show ?thesis by simp
  qed
next
  case (OCR a1 ci found)
  from assms(3) show ?thesis
  proof (cases rule: server_content_items_cases)
    case n: (Native ci')
    from mineru_server_blocks_core [OF assms(1) OCR(1) n(1)] OCR(2) n(2) show ?thesis by simp
  next
    case o: (OCR b1 ci' found')
    from mineru_server_blocks_core [OF assms(1) OCR(1) o(1)] have 1: "same_core a1 b1" "ci = ci'"
      by simp_all
    from mineru_server_ocr_core [OF 1(1) OCR(3) o(3)] 1(2) OCR(4) o(4) show ?thesis by simp
  qed
qed

subsection \<open>A run of \<open>server\<close> and a run of \<open>server\<close> side by side\<close>

lemma server_server_crop_core:
  assumes "same_core a b" and "server_crop d1 i p box a = Inr (a', n)"
    and "server_crop d2 i p box b = Inr (b', n')"
  shows "same_core a' b' \<and> n = n'"
  using assms(1) server_crop_Inr [OF assms(2)] server_crop_Inr [OF assms(3)]
  by (simp add: same_core_def names_def)

lemma server_server_embedded_core:
  assumes "same_core a b" and "server_embedded d1 doc x a = Inr (a', n)"
    and "server_embedded d2 doc x b = Inr (b', n')"
  shows "same_core a' b' \<and> n = n'"
proof (cases "xref_to_filename a x")
  case None
  with assms(1) have "xref_to_filename b x = None" by (simp add: same_core_def)
  from assms(1) server_embedded_miss [OF assms(2) None] server_embedded_miss [OF assms(3) this]
  show ?thesis by (simp add: same_core_def names_def)
next
  case (Some n0)
  with assms(1) have "xref_to_filename b x = Some n0" by (simp add: same_core_def)
  from assms(1) server_embedded_hit [OF assms(2) Some] server_embedded_hit [OF assms(3) this]
  show ?thesis by simp
qed

lemma server_server_block_core:
  assumes "same_core a b" and "server_block d1 doc i p (a, ci) blk = Inr (a', c)"
    and "server_block d2 doc i p (b, ci) blk = Inr (b', c')"
  shows "same_core a' b' \<and> c = c'"
  using assms(2)
proof (cases rule: server_block_cases)
  case Text
  from assms(3) show ?thesis
    by (cases rule: server_block_cases) (use Text assms(1) in auto)
next
  case (Embedded x n)
  from assms(3) show ?thesis
  proof (cases rule: server_block_cases)
    case e: (Embedded y m)
    with Embedded have "y = x" by simp
    from server_server_embedded_core [OF assms(1) Embedded(4) e(4) [unfolded this]] Embedded(5) e(5)
    show ?thesis by simp
  qed (use Embedded in auto)
next
  case (Crop n)
  from assms(3) show ?thesis
  proof (cases rule: server_block_cases)
    case c: (Crop m)
    from server_server_crop_core [OF assms(1) Crop(3) c(3)] Crop(4) c(4) show ?thesis by simp
  qed (use Crop in auto)
qed

lemma server_server_blocks_core:
  assumes "same_core a b" and "server_blocks d1 doc i p (a, ci) bs = Inr (a', c)"
    and "server_blocks d2 doc i p (b, ci) bs = Inr (b', c')"
  shows "same_core a' b' \<and> c = c'"
  using assms
proof (induction bs arbitrary: a b ci)
  case Nil
  then show ?case by simp
next
  case (Cons blk bs)
  from Cons.prems(2) obtain a1 c1 where x: "server_block d1 doc i p (a, ci) blk = Inr (a1, c1)"
    "server_blocks d1 doc i p (a1, c1) bs = Inr (a', c)" by (rule server_blocks_Cons)
  from Cons.prems(3) obtain b1 c2 where y: "server_block d2 doc i p (b, ci) blk = Inr (b1, c2)"
    "server_blocks d2 doc i p (b1, c2) bs = Inr (b', c')" by (rule server_blocks_Cons)
  from server_server_block_core [OF Cons.prems(1) x(1) y(1)] have 1: "same_core a1 b1" "c1 = c2"
    by simp_all
  from Cons.IH [OF 1(1) x(2) y(2) [folded 1(2)]] show ?case .
qed

lemma server_server_ocr_core:
  assumes "same_core a b" and "server_ocr i p a = Inr (a', found)"
    and "server_ocr i p b = Inr (b', found')"
  shows "same_core a' b' \<and> found = found'"
proof -
  from server_ocr_Inr [OF assms(2)] obtain f1 where 1:
    "image_counter a' = image_counter a" "saved a' = saved a"
    "xref_to_filename a' = xref_to_filename a"
    "ocr_extract_lines_with_positions (page_image_for_ocr p) ''6'' 60 = Inr f1"
    "if f1 = [] then
       ocr_extract_lines_with_positions (page_image_for_ocr p) ''11'' 55 = Inr found \<and>
       ocr_calls a' = ocr_calls a @ [(i, ''6'', 60), (i, ''11'', 55)]
     else found = f1 \<and> ocr_calls a' = ocr_calls a @ [(i, ''6'', 60)]"
    by blast
  from server_ocr_Inr [OF assms(3)] obtain f2 where 2:
    "image_counter b' = image_counter b" "saved b' = saved b"
    "xref_to_filename b' = xref_to_filename b"
    "ocr_extract_lines_with_positions (page_image_for_ocr p) ''6'' 60 = Inr f2"
    "if f2 = [] then
       ocr_extract_lines_with_positions (page_image_for_ocr p) ''11'' 55 = Inr found' \<and>
       ocr_calls b' = ocr_calls b @ [(i, ''6'', 60), (i, ''11'', 55)]
     else found' = f2 \<and> ocr_calls b' = ocr_calls b @ [(i, ''6'', 60)]"
    by blast
  from 1(4) 2(4) have f: "f2 = f1" by simp
  show ?thesis
  proof (cases "f1 = []")
    case True
    with 1 2 f assms(1) show ?thesis by (simp add: same_core_def names_def)
  next
    case False
    with 1 2 f assms(1) show ?thesis by (simp add: same_core_def names_def)
  qed
qed

lemma server_server_content_items_core:
  assumes "same_core a b" and "server_content_items d1 doc i p a = Inr (a', its)"
    and "server_content_items d2 doc i p b = Inr (b', its')"
  shows "same_core a' b' \<and> its = its'"
  using assms(2)
proof (cases rule: server_content_items_cases)
  case (Native ci)
  from assms(3) show ?thesis
  proof (cases rule: server_content_items_cases)
    case n: (Native ci')
    from server_server_blocks_core [OF assms(1) Native(1) n(1)] Native(3) n(3) show ?thesis by simp
  next
    case o: (OCR b1 ci' found)
    from server_server_blocks_core [OF assms(1) Native(1) o(1)] Native(2) o(2) show ?thesis by simp
  qed
next
  case (OCR a1 ci found)
  from assms(3) show ?thesis
  proof (cases rule: server_content_items_cases)
    case n: (Native ci')
    from server_server_blocks_core [OF assms(1) OCR(1) n(1)] OCR(2) n(2) show ?thesis by simp
  next
    case o: (OCR b1 ci' found')
    from server_server_blocks_core [OF assms(1) OCR(1) o(1)] have 1: "same_core a1 b1" "ci = ci'"
      by simp_all
    from server_server_ocr_core [OF 1(1) OCR(3) o(3)] 1(2) OCR(4) o(4) show ?thesis by simp
  qed
qed

subsection \<open>A run of \<open>mineru\<close> and a run of \<open>mineru\<close> side by side\<close>

lemma mineru_mineru_crop_core:
  assumes "same_core a b" and "mineru_crop d1 i p box a = Inr (a', n)"
    and "mineru_crop d2 i p box b = Inr (b', n')"
  shows "same_core a' b' \<and> n = n'"
  using assms(1) mineru_crop_Inr [OF assms(2)] mineru_crop_Inr [OF assms(3)]
  by (simp add: same_core_def names_def)

lemma mineru_mineru_embedded_core:
  assumes "same_core a b" and "mineru_embedded d1 doc x a = Inr (a', n)"
    and "mineru_embedded d2 doc x b = Inr (b', n')"
  shows "same_core a' b' \<and> n = n'"
proof (cases "xref_to_filename a x")
  case None
  with assms(1) have "xref_to_filename b x = None" by (simp add: same_core_def)
  from assms(1) mineru_embedded_miss [OF assms(2) None] mineru_embedded_miss [OF assms(3) this]
  show ?thesis by (simp add: same_core_def names_def)
next
  case (Some n0)
  with assms(1) have "xref_to_filename b x = Some n0" by (simp add: same_core_def)
  from assms(1) mineru_embedded_hit [OF assms(2) Some] mineru_embedded_hit [OF assms(3) this]
  show ?thesis by simp
qed

lemma mineru_mineru_block_core:
  assumes "same_core a b" and "mineru_block d1 doc i p (a, ci) blk = Inr (a', c)"
    and "mineru_block d2 doc i p (b, ci) blk = Inr (b', c')"
  shows "same_core a' b' \<and> c = c'"
  using assms(2)
proof (cases rule: mineru_block_cases)
  case Text
  from assms(3) show ?thesis
    by (cases rule: mineru_block_cases) (use Text assms(1) in auto)
next
  case (Embedded x n)
  from assms(3) show ?thesis
  proof (cases rule: mineru_block_cases)
    case e: (Embedded y m)
    with Embedded have "y = x" by simp
    from mineru_mineru_embedded_core [OF assms(1) Embedded(4) e(4) [unfolded this]] Embedded(5) e(5)
    show ?thesis by simp
  qed (use Embedded in auto)
next
  case (Crop n)
  from assms(3) show ?thesis
  proof (cases rule: mineru_block_cases)
    case c: (Crop m)
    from mineru_mineru_crop_core [OF assms(1) Crop(3) c(3)] Crop(4) c(4) show ?thesis by simp
  qed (use Crop in auto)
qed

lemma mineru_mineru_blocks_core:
  assumes "same_core a b" and "mineru_blocks d1 doc i p (a, ci) bs = Inr (a', c)"
    and "mineru_blocks d2 doc i p (b, ci) bs = Inr (b', c')"
  shows "same_core a' b' \<and> c = c'"
  using assms
proof (induction bs arbitrary: a b ci)
  case Nil
  then show ?case by simp
next
  case (Cons blk bs)
  from Cons.prems(2) obtain a1 c1 where x: "mineru_block d1 doc i p (a, ci) blk = Inr (a1, c1)"
    "mineru_blocks d1 doc i p (a1, c1) bs = Inr (a', c)" by (rule mineru_blocks_Cons)
  from Cons.prems(3) obtain b1 c2 where y: "mineru_block d2 doc i p (b, ci) blk = Inr (b1, c2)"
    "mineru_blocks d2 doc i p (b1, c2) bs = Inr (b', c')" by (rule mineru_blocks_Cons)
  from mineru_mineru_block_core [OF Cons.prems(1) x(1) y(1)] have 1: "same_core a1 b1" "c1 = c2"
    by simp_all
  from Cons.IH [OF 1(1) x(2) y(2) [folded 1(2)]] show ?case .
qed

lemma mineru_mineru_ocr_core:
  assumes "same_core a b" and "mineru_ocr i p a = Inr (a', found)"
    and "mineru_ocr i p b = Inr (b', found')"
  shows "same_core a' b' \<and> found = found'"
proof -
  from mineru_ocr_Inr [OF assms(2)] obtain f1 where 1:
    "image_counter a' = image_counter a" "saved a' = saved a"
    "xref_to_filename a' = xref_to_filename a"
    "ocr_extract_lines_with_positions (page_image_for_ocr p) ''6'' 60 = Inr f1"
    "if f1 = [] then
       ocr_extract_lines_with_positions (page_image_for_ocr p) ''11'' 55 = Inr found \<and>
       ocr_calls a' = ocr_calls a @ [(i, ''6'', 60), (i, ''11'', 55)]
     else found = f1 \<and> ocr_calls a' = ocr_calls a @ [(i, ''6'', 60)]"
    by blast
  from mineru_ocr_Inr [OF assms(3)] obtain f2 where 2:
    "image_counter b' = image_counter b" "saved b' = saved b"
    "xref_to_filename b' = xref_to_filename b"
    "ocr_extract_lines_with_positions (page_image_for_ocr p) ''6'' 60 = Inr f2"
    "if f2 = [] then
       ocr_extract_lines_with_positions (page_image_for_ocr p) ''11'' 55 = Inr found' \<and>
       ocr_calls b' = ocr_calls b @ [(i, ''6'', 60), (i, ''11'', 55)]
     else found' = f2 \<and> ocr_calls b' = ocr_calls b @ [(i, ''6'', 60)]"
    by blast
  from 1(4) 2(4) have f: "f2 = f1" by simp
  show ?thesis
  proof (cases "f1 = []")
    case True
    with 1 2 f assms(1) show ?thesis by (simp add: same_core_def names_def)
  next
    case False
    with 1 2 f assms(1) show ?thesis by (simp add: same_core_def names_def)
  qed
qed

lemma mineru_mineru_content_items_core:
  assumes "same_core a b" and "mineru_content_items d1 doc i p a = Inr (a', its)"
    and "mineru_content_items d2 doc i p b = Inr (b', its')"
  shows "same_core a' b' \<and> its = its'"
  using assms(2)
proof (cases rule: mineru_content_items_cases)
  case (Native ci)
  from assms(3) show ?thesis
  proof (cases rule: mineru_content_items_cases)
    case n: (Native ci')
    from mineru_mineru_blocks_core [OF assms(1) Native(1) n(1)] Native(3) n(3) show ?thesis by simp
  next
    case o: (OCR b1 ci' found)
    from mineru_mineru_blocks_core [OF assms(1) Native(1) o(1)] Native(2) o(2) show ?thesis by simp
  qed
next
  case (OCR a1 ci found)
  from assms(3) show ?thesis
  proof (cases rule: mineru_content_items_cases)
    case n: (Native ci')
    from mineru_mineru_blocks_core [OF assms(1) OCR(1) n(1)] OCR(2) n(2) show ?thesis by simp
  next
    case o: (OCR b1 ci' found')
    from mineru_mineru_blocks_core [OF assms(1) OCR(1) o(1)] have 1: "same_core a1 b1" "ci = ci'"
      by simp_all
    from mineru_mineru_ocr_core [OF 1(1) OCR(3) o(3)] 1(2) OCR(4) o(4) show ?thesis by simp
  qed
qed

section \<open>The text of a page\<close>

lemma join_lines: "concat (map (\<lambda>l. l @ sep) ls) = (if ls = [] then [] else join sep ls @ sep)"
  by (induction sep ls rule: join.induct) auto

lemma server_block_txt:
  assumes "server_block d doc i p (s, ci) b = Inr (s', ci')"
  shows "txt_lines s' = txt_lines s"
  using assms
  by (cases rule: server_block_cases)
    (auto simp: server_crop_def server_embedded_def Let_def split: if_splits option.splits)

lemma server_blocks_txt:
  assumes "server_blocks d doc i p (s, ci) bs = Inr (s', ci')"
  shows "txt_lines s' = txt_lines s"
proof -
  from assms have "case (s', ci') of (t, c) \<Rightarrow> txt_lines t = txt_lines s"
    by (induction rule: server_blocks_induct) (auto dest: server_block_txt)
  then show ?thesis by simp
qed

lemma server_ocr_txt:
  "server_ocr i p s = Inr (s', ls) \<Longrightarrow> txt_lines s' = txt_lines s"
  by (auto simp: server_ocr_def Let_def split: sum.splits if_splits)

lemma server_content_items_txt:
  assumes "server_content_items d doc i p s = Inr (s', its)"
  shows "txt_lines s' = txt_lines s"
  using assms
proof (cases rule: server_content_items_cases)
  case (Native ci)
  then show ?thesis by (simp add: server_blocks_txt)
next
  case (OCR s1 ci found)
  then show ?thesis using server_blocks_txt [OF OCR(1)] server_ocr_txt [OF OCR(3)] by simp
qed

lemma server_page_Inr:
  assumes "server_page d doc i p s = Inr s'"
  obtains s1 its where "server_content_items d doc i p s = Inr (s1, its)"
    and "s' = s1\<lparr>txt_lines := txt_lines s @ [header i] @ map render its @ [[]]\<rparr>"
proof -
  from assms obtain s1 its where c: "server_content_items d doc i p s = Inr (s1, its)"
    and s': "s' = s1\<lparr>txt_lines := txt_lines s1 @ [header i] @ map render its @ [[]]\<rparr>"
    by (auto simp: server_page_def split: sum.splits prod.splits)
  from server_content_items_txt [OF c] s' c that show ?thesis by simp
qed

lemma server_pages_Cons:
  assumes "server_pages d doc i (p # ps) s = Inr s'"
  obtains s1 where "server_page d doc i p s = Inr s1"
    and "server_pages d doc (i + 1) ps s1 = Inr s'"
  using assms by (auto split: sum.splits)

lemma mineru_block_txt:
  assumes "mineru_block d doc i p (s, ci) b = Inr (s', ci')"
  shows "txt_file s' = txt_file s"
  using assms
  by (cases rule: mineru_block_cases)
    (auto simp: mineru_crop_def mineru_embedded_def Let_def split: if_splits option.splits)

lemma mineru_blocks_txt:
  assumes "mineru_blocks d doc i p (s, ci) bs = Inr (s', ci')"
  shows "txt_file s' = txt_file s"
proof -
  from assms have "case (s', ci') of (t, c) \<Rightarrow> txt_file t = txt_file s"
    by (induction rule: mineru_blocks_induct) (auto dest: mineru_block_txt)
  then show ?thesis by simp
qed

lemma mineru_ocr_txt:
  "mineru_ocr i p s = Inr (s', ls) \<Longrightarrow> txt_file s' = txt_file s"
  by (auto simp: mineru_ocr_def Let_def split: sum.splits if_splits)

lemma mineru_content_items_txt:
  assumes "mineru_content_items d doc i p s = Inr (s', its)"
  shows "txt_file s' = txt_file s"
  using assms
proof (cases rule: mineru_content_items_cases)
  case (Native ci)
  then show ?thesis by (simp add: mineru_blocks_txt)
next
  case (OCR s1 ci found)
  then show ?thesis using mineru_blocks_txt [OF OCR(1)] mineru_ocr_txt [OF OCR(3)] by simp
qed

lemma mineru_write_Inr:
  "mineru_write fs t str s = Inr s' \<Longrightarrow> s' = s\<lparr>txt_file := txt_file s @ str\<rparr>"
  by (auto simp: mineru_write_def split: if_splits)

lemma mineru_write_items_Inr:
  "mineru_write_items fs t its s = Inr s' \<Longrightarrow>
   s' = s\<lparr>txt_file := txt_file s @ concat (map (\<lambda>it. render it @ nl) its)\<rparr>"
proof (induction its arbitrary: s)
  case Nil
  then show ?case by simp
next
  case (Cons it its)
  from Cons.prems obtain s1 where 1: "mineru_write fs t (render it @ nl) s = Inr s1"
    and 2: "mineru_write_items fs t its s1 = Inr s'"
    by (auto split: sum.splits)
  from mineru_write_Inr [OF 1] Cons.IH [OF 2] show ?case by simp
qed

lemma mineru_page_Inr:
  assumes "mineru_page fs t d doc i p s = Inr s'"
  obtains s1 its where "mineru_content_items d doc i p s = Inr (s1, its)"
    and "s' = s1\<lparr>txt_file :=
           txt_file s @ concat (map (\<lambda>l. l @ nl) ([header i] @ map render its @ [[]]))\<rparr>"
proof -
  from assms obtain s1 its s2 s3
    where c: "mineru_content_items d doc i p s = Inr (s1, its)"
      and 1: "mineru_write fs t (header i @ nl) s1 = Inr s2"
      and 2: "mineru_write_items fs t its s2 = Inr s3"
      and 3: "mineru_write fs t nl s3 = Inr s'"
    by (auto simp: mineru_page_def split: sum.splits prod.splits)
  from mineru_write_Inr [OF 1] mineru_write_items_Inr [OF 2] mineru_write_Inr [OF 3]
    mineru_content_items_txt [OF c]
  have "s' = s1\<lparr>txt_file :=
           txt_file s @ concat (map (\<lambda>l. l @ nl) ([header i] @ map render its @ [[]]))\<rparr>"
    by (simp add: comp_def)
  with c that show ?thesis by blast
qed

lemma mineru_pages_Cons:
  assumes "mineru_pages fs t d doc i (p # ps) s = Inr s'"
  obtains s1 where "mineru_page fs t d doc i p s = Inr s1"
    and "mineru_pages fs t d doc (i + 1) ps s1 = Inr s'"
  using assms by (auto split: sum.splits)

lemma same_core_txt_lines [simp]: "same_core (a\<lparr>txt_lines := x\<rparr>) b = same_core a b"
  "same_core e (c\<lparr>txt_lines := x\<rparr>) = same_core e c"
  by (simp_all add: same_core_def names_def)

lemma same_core_txt_file [simp]: "same_core (m\<lparr>txt_file := y\<rparr>) b = same_core m b"
  "same_core e (n\<lparr>txt_file := y\<rparr>) = same_core e n"
  by (simp_all add: same_core_def names_def)

section \<open>The two entry points run in step\<close>

lemma page_in_step:
  assumes "in_step m s" and "mineru_page fs t d1 doc i p m = Inr m'"
    and "server_page d2 doc i p s = Inr s'"
  shows "in_step m' s'"
proof -
  from assms(2) obtain m1 its where 1: "mineru_content_items d1 doc i p m = Inr (m1, its)"
    "m' = m1\<lparr>txt_file :=
           txt_file m @ concat (map (\<lambda>l. l @ nl) ([header i] @ map render its @ [[]]))\<rparr>"
    by (rule mineru_page_Inr)
  from assms(3) obtain s1 its' where 2: "server_content_items d2 doc i p s = Inr (s1, its')"
    "s' = s1\<lparr>txt_lines := txt_lines s @ [header i] @ map render its' @ [[]]\<rparr>"
    by (rule server_page_Inr)
  from assms(1) have c: "same_core m s" by (simp add: in_step_def)
  from mineru_server_content_items_core [OF c 1(1) 2(1)] assms(1) 1(2) 2(2)
  show ?thesis by (simp add: in_step_def comp_def)
qed

lemma pages_in_step:
  assumes "in_step m s" and "mineru_pages fs t d1 doc i ps m = Inr m'"
    and "server_pages d2 doc i ps s = Inr s'"
  shows "in_step m' s'"
  using assms
proof (induction ps arbitrary: m s i)
  case Nil
  then show ?case by simp
next
  case (Cons p ps)
  from Cons.prems(2) obtain m1 where 1: "mineru_page fs t d1 doc i p m = Inr m1"
    "mineru_pages fs t d1 doc (i + 1) ps m1 = Inr m'" by (rule mineru_pages_Cons)
  from Cons.prems(3) obtain s1 where 2: "server_page d2 doc i p s = Inr s1"
    "server_pages d2 doc (i + 1) ps s1 = Inr s'" by (rule server_pages_Cons)
  from Cons.IH [OF page_in_step [OF Cons.prems(1) 1(1) 2(1)] 1(2) 2(2)] show ?case .
qed

lemma server_pages_txt:
  "server_pages d doc i ps s = Inr s' \<Longrightarrow>
   \<exists>extra. txt_lines s' = txt_lines s @ extra \<and> (extra = [] \<longleftrightarrow> ps = [])"
proof (induction ps arbitrary: s i)
  case Nil
  then show ?case by simp
next
  case (Cons p ps)
  from Cons.prems obtain s1 where p: "server_page d doc i p s = Inr s1"
    and r: "server_pages d doc (i + 1) ps s1 = Inr s'"
    by (rule server_pages_Cons)
  from p obtain s0 its
    where 1: "s1 = s0\<lparr>txt_lines := txt_lines s @ [header i] @ map render its @ [[]]\<rparr>"
    by (rule server_page_Inr)
  from Cons.IH [OF r] obtain extra where 2: "txt_lines s' = txt_lines s1 @ extra" by blast
  show ?case using 1 2 by simp
qed

lemma init_in_step: "in_step mineru_init server_init"
  by (simp add: in_step_def same_core_def mineru_init_def server_init_def names_def)

lemma main_Inr:
  assumes "main fs timestamp doc = Inr m"
  obtains t d where "mineru_pages fs t d doc 0 (pages doc) mineru_init = Inr m"
    and "d = butlast PDF_PATH @ [timestamp @ ''_'' @ ''compressed(2)''] @ [''images'']"
  using assms by (auto simp: main_def Let_def split: if_splits)

lemma extract_Inr:
  assumes "extract_pdf_images_and_text fs pdf_path doc = Inr (r, s)"
  shows "server_pages (butlast pdf_path @ [''images'']) doc 0 (pages doc) server_init = Inr s \<and>
         r = (join nl (txt_lines s), butlast pdf_path @ [''images''], image_list s)"
  using assms
  by (auto simp: extract_pdf_images_and_text_def Let_def split: if_splits sum.splits)

section \<open>The order of the merged items\<close>

lemma not_KText [simp]: "(k \<noteq> KText) = (k = KImage)"
  by (cases k) simp_all

lemma merge_order_key: "merge_order a b \<longleftrightarrow> item_key a \<le> item_key b"
  by (cases a; cases b)
    (auto simp: merge_order_def item_key_def item_top_def item_left_def item_kind_def
      less_eq_prod_def less_prod_def)

lemma sorted_wrt_sort_items: "sorted_wrt merge_order (sort_items xs)"
proof -
  have "sorted (map item_key (sort_key item_key xs))" by (rule sorted_sort_key)
  then show ?thesis by (simp add: sort_items_def sorted_map merge_order_key [abs_def])
qed

text \<open>
  C2, amended. The merged items of a page, of either entry point, are sorted by the key
  \<open>(top, left, kind)\<close> with text before image: of two items, the earlier one has the
  smaller \<open>top\<close>, or the same \<open>top\<close> and the smaller \<open>left\<close>, or the same \<open>top\<close> and
  \<open>left\<close> and it is not an image followed by a text. Two items of the same kind at the
  same place may follow each other.
\<close>

theorem merged_items_sorted:
  assumes "server_content_items d doc i p s = Inr (s', its) \<or>
           mineru_content_items d doc i p m = Inr (m', its)"
  shows "sorted_wrt merge_order its"
  using assms
proof
  assume "server_content_items d doc i p s = Inr (s', its)"
  then show ?thesis by (cases rule: server_content_items_cases) (simp_all add: sorted_wrt_sort_items)
next
  assume "mineru_content_items d doc i p m = Inr (m', its)"
  then show ?thesis by (cases rule: mineru_content_items_cases) (simp_all add: sorted_wrt_sort_items)
qed

theorem merged_items_sorted_witness: "sorted_wrt merge_order items_text"
proof -
  from server_items_text obtain s'
    where "server_content_items server_images_dir doc_example 0 page_text server_init =
     Inr (s', items_text)" ..
  then show ?thesis by (rule merged_items_sorted [OF disjI1])
qed

text \<open>
  C2. As stated the claim fails: the order it gives is strict, but two text lines (or two
  images) placed at the same \<open>top\<close> and \<open>left\<close> are both kept, one after the other. On
  \<open>page_text\<close> the lines \<open>Intro\<close> and \<open>Overview\<close> have the same box.
\<close>

theorem claimed_order_counterexample:
  "(\<exists>s'. server_content_items server_images_dir doc_example 0 page_text server_init =
      Inr (s', items_text)) \<and>
   (\<exists>m'. mineru_content_items mineru_images_dir doc_example 0 page_text mineru_init =
      Inr (m', items_text)) \<and>
   items_text ! 1 = (20, 10, KText, ''Intro'') \<and>
   items_text ! 2 = (20, 10, KText, ''Overview'') \<and>
   \<not> claimed_order (items_text ! 1) (items_text ! 2)"
  using server_items_text mineru_items_text
  by (simp add: items_text_def claimed_order_def item_top_def item_left_def item_kind_def)

section \<open>The two entry points produce the same lines\<close>

text \<open>
  C8. As stated the claim fails: \<open>main\<close> ends every line it writes with a newline, while
  \<open>extract_pdf_images_and_text\<close> joins its lines with newlines, so the text of \<open>main\<close> is
  one newline longer on a document that has a page.
\<close>

theorem same_text_stream_counterexample:
  "map_sum id txt_file (main fs_ok ''20251014-103012'' doc_blank) =
     Inr (''=== Slide 1 ==='' @ nl @ nl) \<and>
   map_sum id (\<lambda>(r, s). fst r)
     (extract_pdf_images_and_text fs_ok [''session'', ''input.pdf''] doc_blank) =
     Inr (''=== Slide 1 ==='' @ nl) \<and>
   ''=== Slide 1 ==='' @ nl @ nl \<noteq> ''=== Slide 1 ==='' @ nl"
  using main_blank extract_blank by (simp add: nl_def)

text \<open>
  C8, amended. Whenever \<open>main\<close> and \<open>extract_pdf_images_and_text\<close> both return on the same
  document with the same OCR answers (whatever the file systems, the time stamp and the
  path of the PDF), the text written by \<open>main\<close> consists of the lines \<open>txt_lines\<close> of the
  other (headers, rendered items and the blank lines, in the same order), each followed
  by a newline. \<open>txt_content\<close> is these lines joined by newlines: the text of \<open>main\<close> with
  its last newline removed, and equal to it only for a document without pages.
\<close>

theorem main_refines_extract:
  assumes "main fs1 timestamp doc = Inr m"
    and "extract_pdf_images_and_text fs2 pdf_path doc =
           Inr ((txt_content, images_dir, img_list), s)"
  shows "txt_file m = concat (map (\<lambda>l. l @ nl) (txt_lines s)) \<and>
         txt_content = join nl (txt_lines s) \<and>
         txt_file m = (if pages doc = [] then txt_content else txt_content @ nl)"
proof -
  from assms(1) obtain t d where 1: "mineru_pages fs1 t d doc 0 (pages doc) mineru_init = Inr m"
    by (rule main_Inr)
  from extract_Inr [OF assms(2)]
  have 2: "server_pages (butlast pdf_path @ [''images'']) doc 0 (pages doc) server_init = Inr s"
    and 3: "txt_content = join nl (txt_lines s)" by simp_all
  from pages_in_step [OF init_in_step 1 2]
  have 4: "txt_file m = concat (map (\<lambda>l. l @ nl) (txt_lines s))" by (simp add: in_step_def)
  from server_pages_txt [OF 2] have 5: "txt_lines s = [] \<longleftrightarrow> pages doc = []"
    by (auto simp: server_init_def)
  from 3 4 5 show ?thesis by (auto simp: join_lines)
qed

theorem main_refines_extract_witness:
  "main fs_ok ''20251014-103012'' doc_example = Inr mineru_final \<and>
   extract_pdf_images_and_text fs_ok [''session'', ''input.pdf''] doc_example =
     Inr ((join nl (txt_lines server_final), server_images_dir, image_list server_final),
          server_final) \<and>
   txt_file mineru_final = concat (map (\<lambda>l. l @ nl) (txt_lines server_final)) \<and>
   txt_file mineru_final = join nl (txt_lines server_final) @ nl"
proof -
  have p: "pages doc_example \<noteq> []" by (simp add: doc_example_def)
  from main_refines_extract [OF main_example extract_example] p
  have "txt_file mineru_final = concat (map (\<lambda>l. l @ nl) (txt_lines server_final))"
    and "txt_file mineru_final = join nl (txt_lines server_final) @ nl"
    by auto
  with main_example extract_example show ?thesis by blast
qed

section \<open>Tokens whose confidence does not parse\<close>

lemma ocr_step_unparseable:
  "tok_conf tk = None \<Longrightarrow> - 1 < min_conf \<Longrightarrow> ocr_step min_conf st tk = st"
  by (simp add: ocr_step_def conf_of_def Let_def)

text \<open>
  C10. A token whose confidence cannot be parsed gets the confidence \<open>-1\<close>; under the
  threshold of either pass (60 and 55) the loop skips it, whatever the loop state, and
  the lines obtained from any token sequence are those obtained without the token.
\<close>

theorem unparseable_confidence_discarded:
  assumes "tok_conf tk = None" and "min_conf = 60 \<or> min_conf = 55"
  shows "conf_of tk = - 1 \<and> ocr_step min_conf st tk = st \<and>
         ocr_lines min_conf (pre @ tk # post) = ocr_lines min_conf (pre @ post)"
proof -
  from assms(2) have m: "- 1 < min_conf" by auto
  have s: "\<And>st. ocr_step min_conf st tk = st"
    using assms(1) m by (rule ocr_step_unparseable)
  show ?thesis
    using assms(1) s by (simp add: conf_of_def ocr_lines_def ocr_loop_def)
qed

theorem unparseable_confidence_discarded_witness:
  "tok_conf tok_noconf = None \<and> conf_of tok_noconf = - 1 \<and>
   ocr_step 60 \<lparr>items = [], current = None\<rparr> tok_noconf = \<lparr>items = [], current = None\<rparr> \<and>
   ocr_lines 60 ([tok_good] @ tok_noconf # [tok_good]) = ocr_lines 60 ([tok_good] @ [tok_good]) \<and>
   ocr_lines 60 ([tok_good] @ [tok_good]) = [(5, 7, ''ab ab'')]"
proof -
  have h: "tok_conf tok_noconf = None" by (simp add: tok_noconf_def)
  have e: "ocr_lines 60 ([tok_good] @ [tok_good]) = [(5, 7, ''ab ab'')]"
    by (simp add: ocr_lines_def ocr_loop_def ocr_step_def tok_good_def text_of_def
        conf_of_def key_of_def flush_def strip_def is_space_def Let_def)
  show ?thesis
    using h e unparseable_confidence_discarded [OF h, of 60 "\<lparr>items = [], current = None\<rparr>"
        "[tok_good]" "[tok_good]"]
    by simp
qed

end
